theory Spec2Isabelle
  imports Main "HOL-Library.Sublist"
begin

section \<open>The log query engine of python\_utils/log\_query/log\_querier.py\<close>

text \<open>
  Strings are lists of characters, a character being a code point below 256. The
  operations of Python's \<open>str\<close> that the module uses are written out below for these
  code points: \<open>isspace\<close> holds of 9 to 13, 28 to 32, 133 and 160, and \<open>lower\<close> adds
  32 to the capital letters, which are 65 to 90, 192 to 214 and 216 to 222.
  Exceptions are values: every function that can raise returns \<open>error + 'a\<close>.
\<close>

subsection \<open>Errors\<close>

datatype error =
    InvalidOperationToken string   \<comment> \<open>the \<open>Exception\<close> raised by \<open>eval_next\<close>, with its token\<close>
  | EmptySeparator                 \<comment> \<open>the \<open>ValueError\<close> of \<open>str.split\<close> with an empty separator\<close>

subsection \<open>Operations of \<open>str\<close>\<close>

definition is_space :: "char \<Rightarrow> bool" where
  "is_space c =
     (let n = (of_char c :: nat)
      in (9 \<le> n \<and> n \<le> 13) \<or> (28 \<le> n \<and> n \<le> 32) \<or> n = 133 \<or> n = 160)"

text \<open>\<open>s.strip()\<close>: white space removed at both ends.\<close>

definition strip :: "string \<Rightarrow> string" where
  "strip s = rev (dropWhile is_space (rev (dropWhile is_space s)))"

definition lower_char :: "char \<Rightarrow> char" where
  "lower_char c =
     (let n = (of_char c :: nat)
      in if (65 \<le> n \<and> n \<le> 90) \<or> (192 \<le> n \<and> n \<le> 214) \<or> (216 \<le> n \<and> n \<le> 222)
         then char_of (n + 32) else c)"

text \<open>\<open>s.lower()\<close>.\<close>

definition lower :: "string \<Rightarrow> string" where
  "lower s = map lower_char s"

text \<open>
  \<open>s.replace(old, new)\<close>: the occurrences of \<open>old\<close> are replaced from left to right,
  without overlap; an empty \<open>old\<close> matches before every character and at the end.
\<close>

fun replace_scan :: "string \<Rightarrow> string \<Rightarrow> nat \<Rightarrow> string \<Rightarrow> string" where
  "replace_scan old new skip [] = []"
| "replace_scan old new (Suc skip) (c # cs) = replace_scan old new skip cs"
| "replace_scan old new 0 (c # cs) =
     (if prefix old (c # cs) then new @ replace_scan old new (length old - 1) cs
      else c # replace_scan old new 0 cs)"

definition replace_str :: "string \<Rightarrow> string \<Rightarrow> string \<Rightarrow> string" where
  "replace_str old new s =
     (if old = [] then new @ concat (map (\<lambda>c. c # new) s) else replace_scan old new 0 s)"

text \<open>
  \<open>s.split(sep)\<close> for a non-empty separator: \<open>split_scan\<close> carries the piece read so
  far (reversed) and the number of characters of a separator still to skip.
\<close>

fun split_scan :: "string \<Rightarrow> string \<Rightarrow> nat \<Rightarrow> string \<Rightarrow> string list" where
  "split_scan sep piece skip [] = [rev piece]"
| "split_scan sep piece (Suc skip) (c # cs) = split_scan sep piece skip cs"
| "split_scan sep piece 0 (c # cs) =
     (if prefix sep (c # cs) then rev piece # split_scan sep [] (length sep - 1) cs
      else split_scan sep (c # piece) 0 cs)"

definition split_str :: "string \<Rightarrow> string \<Rightarrow> error + string list" where
  "split_str s sep = (if sep = [] then Inl EmptySeparator else Inr (split_scan sep [] 0 s))"

text \<open>\<open>sep.join(parts)\<close>.\<close>

fun join_str :: "string \<Rightarrow> string list \<Rightarrow> string" where
  "join_str sep [] = []"
| "join_str sep [x] = x"
| "join_str sep (x # y # ys) = x @ sep @ join_str sep (y # ys)"

subsection \<open>The operator dictionary\<close>

record OperationDict =
  op_AND :: string
  op_OR :: string
  op_NOT :: string
  op_LEFT_PARENTHESIS :: string
  op_RIGHT_PARENTHESIS :: string

definition backslash :: char where
  "backslash = CHR 0x5C"

text \<open>The module's \<open>OPERATION_DICT\<close>: every character of a literal is escaped.\<close>

definition OPERATION_DICT :: OperationDict where
  "OPERATION_DICT = \<lparr>
     op_AND = [backslash, CHR ''&'', backslash, CHR ''&''],
     op_OR = [backslash, CHR ''|'', backslash, CHR ''|''],
     op_NOT = [backslash, CHR ''!'', backslash, CHR ''!''],
     op_LEFT_PARENTHESIS = [backslash, CHR ''('', backslash, CHR ''(''],
     op_RIGHT_PARENTHESIS = [backslash, CHR '')'', backslash, CHR '')''] \<rparr>"

definition QUOTE_STRING :: string where
  "QUOTE_STRING = [CHR 0x22, CHR 0x22]"

text \<open>\<open>value.replace('\\', '')\<close>, applied to an entry of a dictionary.\<close>

definition unescape :: "string \<Rightarrow> string" where
  "unescape v = replace_str [backslash] [] v"

text \<open>\<open>dict.values()\<close>, in the order of the keys of \<open>OperationDict\<close>.\<close>

definition dict_values :: "OperationDict \<Rightarrow> string list" where
  "dict_values d =
     [op_AND d, op_OR d, op_NOT d, op_LEFT_PARENTHESIS d, op_RIGHT_PARENTHESIS d]"

text \<open>
  \<open>INVALID_EVAL_OPERATION_SET\<close> is computed once, when the module is loaded, from
  \<open>OPERATION_DICT\<close>.
\<close>

definition INVALID_EVAL_OPERATION_SET :: "string set" where
  "INVALID_EVAL_OPERATION_SET =
     set (map unescape
       [op_AND OPERATION_DICT, op_OR OPERATION_DICT, op_RIGHT_PARENTHESIS OPERATION_DICT])"

subsection \<open>The class \<open>LogQuerier\<close>\<close>

text \<open>
  Python lists are objects: \<open>self.logs\<close> is a reference to the list the caller passed,
  and \<open>list.reverse\<close> changes a list in place. The store holds the list objects, an
  address is an index of the store, and a new list is allocated at its end.
\<close>

type_synonym addr = nat
type_synonym store = "string list list"

definition alloc :: "store \<Rightarrow> string list \<Rightarrow> addr \<times> store" where
  "alloc h v = (length h, h @ [v])"

record LogQuerier =
  logs :: addr
  operationo_dict :: OperationDict
  pattern :: string
  quote_string :: string

text \<open>\<open>LogQuerier.__init__\<close>.\<close>

definition init :: "addr \<Rightarrow> OperationDict \<Rightarrow> string \<Rightarrow> LogQuerier" where
  "init logs_ref raw_operation_dict quote =
     \<lparr> logs = logs_ref,
       operationo_dict = \<lparr>
         op_AND = unescape (op_AND raw_operation_dict),
         op_OR = unescape (op_OR raw_operation_dict),
         op_NOT = unescape (op_NOT raw_operation_dict),
         op_LEFT_PARENTHESIS = unescape (op_LEFT_PARENTHESIS raw_operation_dict),
         op_RIGHT_PARENTHESIS = unescape (op_RIGHT_PARENTHESIS raw_operation_dict) \<rparr>,
       pattern = join_str ''|'' (dict_values raw_operation_dict),
       quote_string = quote \<rparr>"

subsection \<open>The tokenizer\<close>

text \<open>
  \<open>re.findall(self.pattern, query)\<close>. The pattern is the alternation of the raw entries
  of the dictionary. The model reads each raw entry as an escaped literal, a regular
  expression that matches its unescaped text and nothing else, as the entries of
  \<open>OPERATION_DICT\<close> are; so the alternatives are the entries of \<open>operationo_dict\<close>.
  The scan goes from left to right; at a position the first alternative that matches is
  taken and the scan goes on behind the match, and where none matches the scan moves on
  by one character. \<open>first_match\<close> takes non-empty alternatives only: a dictionary with
  an empty literal is dealt with in \<open>tokenize\<close>.
  A raw entry that is another regular expression (a wildcard, a class, a group, a
  repetition) is outside this model: there the pattern matches text that is not the
  unescaped entry. The entries the model covers are those of \<open>escaped_literal\<close>
  below, and a statement about the tokens of every querier is made for the queriers
  that \<open>init\<close> builds from such entries.
\<close>

fun first_match :: "string list \<Rightarrow> string \<Rightarrow> string option" where
  "first_match [] s = None"
| "first_match (p # ps) s = (if p \<noteq> [] \<and> prefix p s then Some p else first_match ps s)"

fun findall_scan :: "string list \<Rightarrow> nat \<Rightarrow> string \<Rightarrow> string list" where
  "findall_scan alts skip [] = []"
| "findall_scan alts (Suc skip) (c # cs) = findall_scan alts skip cs"
| "findall_scan alts 0 (c # cs) =
     (case first_match alts (c # cs) of
        None \<Rightarrow> findall_scan alts 0 cs
      | Some p \<Rightarrow> p # findall_scan alts (length p - 1) cs)"

definition findall :: "string list \<Rightarrow> string \<Rightarrow> string list" where
  "findall alts s = findall_scan alts 0 s"

text \<open>The nested function \<open>parse_quoted_token\<close>.\<close>

definition parse_quoted_token :: "LogQuerier \<Rightarrow> string \<Rightarrow> string" where
  "parse_quoted_token self token = replace_str (quote_string self) [] (strip token)"

text \<open>
  The loop over \<open>operations\<close>: its state is the list \<open>tokens\<close> and \<open>current_query\<close>.
\<close>

fun tokenize_loop :: "string list \<Rightarrow> string list \<Rightarrow> string \<Rightarrow> error + (string list \<times> string)" where
  "tokenize_loop [] tokens current_query = Inr (tokens, current_query)"
| "tokenize_loop (operation # operations) tokens current_query =
     (case split_str current_query operation of
        Inl e \<Rightarrow> Inl e
      | Inr sub_strings \<Rightarrow>
          tokenize_loop operations
            ((if hd sub_strings \<noteq> [] then tokens @ [hd sub_strings] else tokens) @ [operation])
            (join_str operation (tl sub_strings)))"

text \<open>
  \<open>LogQuerier._tokenize\<close>. When a literal of the dictionary is empty, the pattern
  matches the empty string at the end of every query, \<open>operations\<close> holds an empty
  string and \<open>split\<close> raises at it; the operations before it raise nothing.
\<close>

definition tokenize :: "LogQuerier \<Rightarrow> string \<Rightarrow> error + string list" where
  "tokenize self query =
     (if [] \<in> set (dict_values (operationo_dict self)) then Inl EmptySeparator
      else
        (case tokenize_loop (findall (dict_values (operationo_dict self)) query) [] query of
           Inl e \<Rightarrow> Inl e
         | Inr (tokens, current_query) \<Rightarrow>
             Inr (map (parse_quoted_token self)
                   (filter (\<lambda>token. parse_quoted_token self token \<noteq> [])
                     (if current_query \<noteq> [] then tokens @ [current_query] else tokens)))))"

subsection \<open>The evaluator\<close>

text \<open>
  The three nested functions of \<open>_evaluate_tokens\<close>; each \<open>while\<close> loop is a function
  of the variables it updates. A pair \<open>(result, next_pos)\<close> is returned, or the error.
\<close>

type_synonym eval_result = "error + (bool \<times> nat)"

function
  eval_next :: "OperationDict \<Rightarrow> string list \<Rightarrow> string \<Rightarrow> bool \<Rightarrow> nat \<Rightarrow> eval_result" and
  eval_and :: "OperationDict \<Rightarrow> string list \<Rightarrow> string \<Rightarrow> bool \<Rightarrow> nat \<Rightarrow> eval_result" and
  eval_and_loop :: "OperationDict \<Rightarrow> string list \<Rightarrow> string \<Rightarrow> bool \<Rightarrow> bool \<Rightarrow> nat \<Rightarrow> eval_result" and
  eval_or :: "OperationDict \<Rightarrow> string list \<Rightarrow> string \<Rightarrow> bool \<Rightarrow> nat \<Rightarrow> eval_result" and
  eval_or_loop :: "OperationDict \<Rightarrow> string list \<Rightarrow> string \<Rightarrow> bool \<Rightarrow> bool \<Rightarrow> nat \<Rightarrow> eval_result"
where
  "eval_next d tokens log ci pos =
     (if pos < length tokens then
        (let token = tokens ! pos in
         if token = op_LEFT_PARENTHESIS d then
           (case eval_or d tokens log ci (pos + 1) of
              Inl e \<Rightarrow> Inl e
            | Inr (result, next_pos) \<Rightarrow> Inr (result, next_pos + 1))
         else if token = op_NOT d then
           (case eval_next d tokens log ci (pos + 1) of
              Inl e \<Rightarrow> Inl e
            | Inr (result, next_pos) \<Rightarrow> Inr (\<not> result, next_pos))
         else if token \<in> INVALID_EVAL_OPERATION_SET then
           Inl (InvalidOperationToken token)
         else
           Inr (if ci then sublist (lower token) (lower log) else sublist token log, pos + 1))
      else Inr (False, pos))"
| "eval_and d tokens log ci pos =
     (case eval_next d tokens log ci pos of
        Inl e \<Rightarrow> Inl e
      | Inr (result, next_pos) \<Rightarrow> eval_and_loop d tokens log ci result next_pos)"
| "eval_and_loop d tokens log ci result next_pos =
     (if next_pos < length tokens \<and> tokens ! next_pos = op_AND d then
        (case eval_next d tokens log ci (next_pos + 1) of
           Inl e \<Rightarrow> Inl e
         | Inr (next_result, next_pos') \<Rightarrow>
             eval_and_loop d tokens log ci (result \<and> next_result) next_pos')
      else Inr (result, next_pos))"
| "eval_or d tokens log ci pos =
     (case eval_and d tokens log ci pos of
        Inl e \<Rightarrow> Inl e
      | Inr (result, next_pos) \<Rightarrow> eval_or_loop d tokens log ci result next_pos)"
| "eval_or_loop d tokens log ci result next_pos =
     (if next_pos < length tokens \<and> tokens ! next_pos = op_OR d then
        (case eval_and d tokens log ci (next_pos + 1) of
           Inl e \<Rightarrow> Inl e
         | Inr (next_result, next_pos') \<Rightarrow>
             eval_or_loop d tokens log ci (result \<or> next_result) next_pos')
      else Inr (result, next_pos))"
  by pat_completeness auto

text \<open>
  Termination: a call never returns a position before the one it was given, so every
  round of a loop, and every call below a token, is nearer to the end of the tokens.
\<close>

lemma eval_pos_mono_dom:
  "eval_next_eval_and_eval_and_loop_eval_or_eval_or_loop_dom (Inl (Inl (d, tokens, log, ci, pos))) \<Longrightarrow>
     eval_next d tokens log ci pos = Inr (r, p) \<Longrightarrow> pos \<le> p"
  "eval_next_eval_and_eval_and_loop_eval_or_eval_or_loop_dom (Inl (Inr (d, tokens, log, ci, pos))) \<Longrightarrow>
     eval_and d tokens log ci pos = Inr (r, p) \<Longrightarrow> pos \<le> p"
  "eval_next_eval_and_eval_and_loop_eval_or_eval_or_loop_dom (Inr (Inl (d, tokens, log, ci, res, pos))) \<Longrightarrow>
     eval_and_loop d tokens log ci res pos = Inr (r, p) \<Longrightarrow> pos \<le> p"
  "eval_next_eval_and_eval_and_loop_eval_or_eval_or_loop_dom (Inr (Inr (Inl (d, tokens, log, ci, pos)))) \<Longrightarrow>
     eval_or d tokens log ci pos = Inr (r, p) \<Longrightarrow> pos \<le> p"
  "eval_next_eval_and_eval_and_loop_eval_or_eval_or_loop_dom (Inr (Inr (Inr (d, tokens, log, ci, res, pos)))) \<Longrightarrow>
     eval_or_loop d tokens log ci res pos = Inr (r, p) \<Longrightarrow> pos \<le> p"
proof (induct d tokens log ci pos and d tokens log ci pos and d tokens log ci res pos
          and d tokens log ci pos and d tokens log ci res pos
          arbitrary: r p and r p and r p and r p and r p
          rule: eval_next_eval_and_eval_and_loop_eval_or_eval_or_loop.pinduct)
  case (1 d tokens log ci pos)
  then show ?case
    by (fastforce simp: eval_next.psimps Let_def split: if_splits sum.splits prod.splits)
next
  case (2 d tokens log ci pos)
  then show ?case
    by (fastforce simp: eval_and.psimps split: sum.splits prod.splits)
next
  case (3 d tokens log ci result next_pos)
  then show ?case
    by (fastforce simp: eval_and_loop.psimps split: if_splits sum.splits prod.splits)
next
  case (4 d tokens log ci pos)
  then show ?case
    by (fastforce simp: eval_or.psimps split: sum.splits prod.splits)
next
  case (5 d tokens log ci result next_pos)
  then show ?case
    by (fastforce simp: eval_or_loop.psimps split: if_splits sum.splits prod.splits)
qed

termination eval_next
  apply (relation "measures [
     (\<lambda>x. case x of
        Inl (Inl (d, tokens, log, ci, pos)) \<Rightarrow> length tokens - pos
      | Inl (Inr (d, tokens, log, ci, pos)) \<Rightarrow> length tokens - pos
      | Inr (Inl (d, tokens, log, ci, res, pos)) \<Rightarrow> length tokens - pos
      | Inr (Inr (Inl (d, tokens, log, ci, pos))) \<Rightarrow> length tokens - pos
      | Inr (Inr (Inr (d, tokens, log, ci, res, pos))) \<Rightarrow> length tokens - pos),
     (\<lambda>x. case x of
        Inl (Inl _) \<Rightarrow> 0
      | Inl (Inr _) \<Rightarrow> 2
      | Inr (Inl _) \<Rightarrow> 1
      | Inr (Inr (Inl _)) \<Rightarrow> 4
      | Inr (Inr (Inr _)) \<Rightarrow> (3::nat))]")
  apply (auto dest: eval_pos_mono_dom)
  done

declare eval_next.simps [simp del] eval_and.simps [simp del] eval_and_loop.simps [simp del]
  eval_or.simps [simp del] eval_or_loop.simps [simp del]

text \<open>\<open>LogQuerier._evaluate_tokens\<close>.\<close>

definition evaluate_tokens ::
  "LogQuerier \<Rightarrow> string list \<Rightarrow> string \<Rightarrow> nat \<Rightarrow> bool \<Rightarrow> error + bool" where
  "evaluate_tokens self tokens log pos enable_case_insensitive =
     (case eval_or (operationo_dict self) tokens log enable_case_insensitive pos of
        Inl e \<Rightarrow> Inl e
      | Inr (result, next_pos) \<Rightarrow> Inr result)"

subsection \<open>The query\<close>

text \<open>
  The list comprehension of \<open>query\<close>: the lines are evaluated in the order of the
  corpus, and the first exception ends the comprehension.
\<close>

fun filter_logs :: "LogQuerier \<Rightarrow> string list \<Rightarrow> bool \<Rightarrow> string list \<Rightarrow> error + string list" where
  "filter_logs self tokens ci [] = Inr []"
| "filter_logs self tokens ci (log # rest) =
     (case evaluate_tokens self tokens log 0 ci of
        Inl e \<Rightarrow> Inl e
      | Inr keep \<Rightarrow>
          (case filter_logs self tokens ci rest of
             Inl e \<Rightarrow> Inl e
           | Inr kept \<Rightarrow> Inr (if keep then log # kept else kept)))"

text \<open>
  The slices \<open>xs[i:]\<close> and \<open>xs[:i]\<close> of a list, for every integer \<open>i\<close>: a negative
  index counts from the end, and an index out of range is clipped.
\<close>

definition slice_from :: "int \<Rightarrow> 'a list \<Rightarrow> 'a list" where
  "slice_from i xs = (if i < 0 then drop (length xs - nat (- i)) xs else drop (nat i) xs)"

definition slice_to :: "int \<Rightarrow> 'a list \<Rightarrow> 'a list" where
  "slice_to i xs = (if i < 0 then take (length xs - nat (- i)) xs else take (nat i) xs)"

text \<open>The truth value of \<open>limit\<close>: \<open>None\<close> and \<open>0\<close> are false.\<close>

definition truthy :: "int option \<Rightarrow> bool" where
  "truthy limit = (case limit of None \<Rightarrow> False | Some n \<Rightarrow> n \<noteq> 0)"

text \<open>
  The first statement of \<open>query\<close>: \<open>tokens = self._tokenize(query) if query else []\<close>.
\<close>

definition query_tokens :: "LogQuerier \<Rightarrow> string \<Rightarrow> error + string list" where
  "query_tokens self query_str = (if query_str \<noteq> [] then tokenize self query_str else Inr [])"

text \<open>
  \<open>LogQuerier.query\<close>, on a store: it returns the reference of the result, or the error,
  and the store it leaves. The comprehension and the slices allocate new lists;
  \<open>logs = self.logs\<close> copies a reference; \<open>logs.reverse()\<close> updates the list at the
  reference \<open>logs\<close>.
\<close>

definition query ::
  "LogQuerier \<Rightarrow> store \<Rightarrow> string \<Rightarrow> int option \<Rightarrow> string \<Rightarrow> bool \<Rightarrow> (error + addr) \<times> store" where
  "query self h query_str limit ordering_str enable_case_insensitive =
     (case query_tokens self query_str of
        Inl e \<Rightarrow> (Inl e, h)
      | Inr tokens \<Rightarrow>
          (case (if tokens \<noteq> [] then
                   (case filter_logs self tokens enable_case_insensitive (h ! logs self) of
                      Inl e \<Rightarrow> Inl e
                    | Inr kept \<Rightarrow> Inr (alloc h kept))
                 else Inr (logs self, h)) of
             Inl e \<Rightarrow> (Inl e, h)
           | Inr (logs1, h1) \<Rightarrow>
               if truthy limit then
                 if ordering_str = ''asc'' then
                   (let (logs2, h2) = alloc h1 (slice_from (- the limit) (h1 ! logs1))
                    in (Inr logs2, h2))
                 else
                   (let (logs2, h2) = alloc h1 (slice_to (the limit) (h1 ! logs1));
                        h3 = h2[logs2 := rev (h2 ! logs2)]
                    in (Inr logs2, h3))
               else (Inr logs1, h1)))"

text \<open>What the caller sees: the list at the reference returned, or the error.\<close>

definition query_result ::
  "LogQuerier \<Rightarrow> store \<Rightarrow> string \<Rightarrow> int option \<Rightarrow> string \<Rightarrow> bool \<Rightarrow> error + string list" where
  "query_result self h query_str limit ordering_str enable_case_insensitive =
     (case query self h query_str limit ordering_str enable_case_insensitive of
        (Inl e, h') \<Rightarrow> Inl e
      | (Inr r, h') \<Rightarrow> Inr (h' ! r))"

text \<open>The querier of the module's defaults, its corpus at the reference given.\<close>

definition default_querier :: "addr \<Rightarrow> LogQuerier" where
  "default_querier logs_ref = init logs_ref OPERATION_DICT QUOTE_STRING"

subsection \<open>Notions of the properties\<close>

text \<open>
  A query evaluated against one line: the tokens of \<open>_tokenize\<close>, given to
  \<open>_evaluate_tokens\<close> at position 0, as the comprehension of \<open>query\<close> does for a
  line.
\<close>

definition evaluate_query :: "LogQuerier \<Rightarrow> string \<Rightarrow> string \<Rightarrow> bool \<Rightarrow> error + bool" where
  "evaluate_query self query_str log ci =
     (case tokenize self query_str of
        Inl e \<Rightarrow> Inl e
      | Inr tokens \<Rightarrow> evaluate_tokens self tokens log 0 ci)"

text \<open>
  A line matches a query when \<open>query\<close> keeps it: the query has no tokens, or the
  evaluation of its tokens against the line returns true.
\<close>

definition matches :: "LogQuerier \<Rightarrow> string \<Rightarrow> bool \<Rightarrow> string \<Rightarrow> bool" where
  "matches self query_str ci log =
     (case query_tokens self query_str of
        Inl e \<Rightarrow> False
      | Inr tokens \<Rightarrow> tokens = [] \<or> evaluate_tokens self tokens log 0 ci = Inr True)"

text \<open>The result of an evaluation with its position moved by \<open>n\<close> tokens.\<close>

definition shift :: "nat \<Rightarrow> eval_result \<Rightarrow> eval_result" where
  "shift n x = (case x of Inl e \<Rightarrow> Inl e | Inr (r, p) \<Rightarrow> Inr (r, n + p))"

text \<open>
  The test of an operand against a line, as the last branch of \<open>eval_next\<close> makes it.
\<close>

definition line_has :: "bool \<Rightarrow> string \<Rightarrow> string \<Rightarrow> bool" where
  "line_has ci operand log =
     (if ci then sublist (lower operand) (lower log) else sublist operand log)"

text \<open>
  An operand string of a querier: a string that \<open>_tokenize\<close> gives back as the one
  token of itself. It is not empty, \<open>parse_quoted_token\<close> leaves it as it is (no white
  space at its ends, no quote marker in it), and no operator literal occurs in it.
\<close>

definition is_operand :: "LogQuerier \<Rightarrow> string \<Rightarrow> bool" where
  "is_operand self s \<longleftrightarrow>
     s \<noteq> [] \<and> parse_quoted_token self s = s \<and>
     (\<forall>lit \<in> set (dict_values (operationo_dict self)). \<not> sublist lit s)"

text \<open>
  The raw entries that are escaped literals: a sequence of characters that are not
  special in a regular expression, and of backslashes each followed by a character that
  is neither an ASCII letter or digit (these escapes are classes, references or errors)
  nor a backslash (which \<open>unescape\<close> would remove too). Such an entry matches the
  text \<open>unescape\<close> gives for it, and nothing else.
\<close>

definition is_meta :: "char \<Rightarrow> bool" where
  "is_meta c = (c \<in> set ''.^$*+?{}[]|()'' \<or> c = backslash)"

definition is_alnum :: "char \<Rightarrow> bool" where
  "is_alnum c =
     (let n = (of_char c :: nat)
      in (48 \<le> n \<and> n \<le> 57) \<or> (65 \<le> n \<and> n \<le> 90) \<or> (97 \<le> n \<and> n \<le> 122))"

fun escaped_literal :: "string \<Rightarrow> bool" where
  "escaped_literal [] = True"
| "escaped_literal [c] = (\<not> is_meta c)"
| "escaped_literal (c # c' # cs) =
     (if c = backslash then \<not> is_alnum c' \<and> c' \<noteq> backslash \<and> escaped_literal cs
      else \<not> is_meta c \<and> escaped_literal (c' # cs))"

text \<open>The literals of the default querier, in the order of its pattern.\<close>

definition default_alts :: "string list" where
  "default_alts = [''&&'', ''||'', ''!!'', ''(('', ''))'']"

subsection \<open>Inputs of the examples\<close>

text \<open>The query of an exclamation mark, the quote marker and an exclamation mark.\<close>

definition quoted_not :: string where
  "quoted_not = [CHR ''!'', CHR 0x22, CHR 0x22, CHR ''!'']"

text \<open>
  Dictionaries that a caller can pass as \<open>raw_operation_dict\<close>: one with words for AND,
  OR and NOT, one with the default literals of AND and OR exchanged, and one with the
  same word for AND and NOT.
\<close>

definition WORD_DICT :: OperationDict where
  "WORD_DICT = \<lparr>
     op_AND = ''AND'', op_OR = ''OR'', op_NOT = ''NOT'',
     op_LEFT_PARENTHESIS = [backslash, CHR ''('', backslash, CHR ''(''],
     op_RIGHT_PARENTHESIS = [backslash, CHR '')'', backslash, CHR '')''] \<rparr>"

definition SWAPPED_DICT :: OperationDict where
  "SWAPPED_DICT = \<lparr>
     op_AND = [backslash, CHR ''|'', backslash, CHR ''|''],
     op_OR = [backslash, CHR ''&'', backslash, CHR ''&''],
     op_NOT = [backslash, CHR ''!'', backslash, CHR ''!''],
     op_LEFT_PARENTHESIS = [backslash, CHR ''('', backslash, CHR ''(''],
     op_RIGHT_PARENTHESIS = [backslash, CHR '')'', backslash, CHR '')''] \<rparr>"

definition SAME_DICT :: OperationDict where
  "SAME_DICT = \<lparr>
     op_AND = ''and'', op_OR = ''or'', op_NOT = ''and'',
     op_LEFT_PARENTHESIS = [backslash, CHR ''('', backslash, CHR ''(''],
     op_RIGHT_PARENTHESIS = [backslash, CHR '')'', backslash, CHR '')''] \<rparr>"

section \<open>Facts about the model\<close>

subsection \<open>The default dictionary\<close>

lemma unescape_simps:
  "unescape [backslash, CHR ''&'', backslash, CHR ''&''] = ''&&''"
  "unescape [backslash, CHR ''|'', backslash, CHR ''|''] = ''||''"
  "unescape [backslash, CHR ''!'', backslash, CHR ''!''] = ''!!''"
  "unescape [backslash, CHR ''('', backslash, CHR ''(''] = ''((''"
  "unescape [backslash, CHR '')'', backslash, CHR '')''] = ''))''"
  by (simp_all add: unescape_def replace_str_def backslash_def)

lemma INVALID_EVAL_OPERATION_SET_eq:
  "INVALID_EVAL_OPERATION_SET = {''&&'', ''||'', ''))''}"
  by (simp add: INVALID_EVAL_OPERATION_SET_def OPERATION_DICT_def unescape_simps)

lemma default_querier_dict:
  "operationo_dict (default_querier a) =
     \<lparr>op_AND = ''&&'', op_OR = ''||'', op_NOT = ''!!'',
      op_LEFT_PARENTHESIS = ''(('', op_RIGHT_PARENTHESIS = ''))''\<rparr>"
  by (simp add: default_querier_def init_def OPERATION_DICT_def unescape_simps)

lemma default_querier_fields:
  "logs (default_querier a) = a"
  "quote_string (default_querier a) = QUOTE_STRING"
  by (simp_all add: default_querier_def init_def)

lemmas eval_simps =
  eval_next.simps eval_and.simps eval_and_loop.simps eval_or.simps eval_or_loop.simps

lemmas tok_eval_defs = tokenize_def default_querier_dict default_querier_fields dict_values_def
  findall_def split_str_def parse_quoted_token_def strip_def is_space_def replace_str_def
  QUOTE_STRING_def

subsection \<open>The query in terms of its lists\<close>

lemma query_result_eq:
  "query_result self h q limit ord ci =
     (case query_tokens self q of
        Inl e \<Rightarrow> Inl e
      | Inr tokens \<Rightarrow>
          (case (if tokens \<noteq> [] then filter_logs self tokens ci (h ! logs self)
                 else Inr (h ! logs self)) of
             Inl e \<Rightarrow> Inl e
           | Inr ms \<Rightarrow>
               Inr (if truthy limit then
                      (if ord = ''asc'' then slice_from (- the limit) ms
                       else rev (slice_to (the limit) ms))
                    else ms)))"
  by (auto simp: query_result_def query_def alloc_def Let_def nth_append
           split: sum.splits prod.splits)

lemma query_store_prefix:
  "take (length h) (snd (query self h q limit ord ci)) = h"
  by (auto simp: query_def alloc_def Let_def split: sum.splits prod.splits)

lemma query_store_nth:
  "a < length h \<Longrightarrow> snd (query self h q limit ord ci) ! a = h ! a"
  by (auto simp: query_def alloc_def Let_def nth_append split: sum.splits prod.splits)

lemma slices_Nil [simp]: "slice_from i [] = []" "slice_to i [] = []"
  by (simp_all add: slice_from_def slice_to_def)

lemma filter_logs_all_False:
  "(\<And>log. evaluate_tokens self tokens log 0 ci = Inr False) \<Longrightarrow>
     filter_logs self tokens ci corpus = Inr []"
  by (induct corpus) auto

lemma filter_logs_returns:
  "(\<And>log. log \<in> set corpus \<Longrightarrow> \<exists>b. evaluate_tokens self tokens log 0 ci = Inr b) \<Longrightarrow>
     filter_logs self tokens ci corpus =
       Inr (filter (\<lambda>log. evaluate_tokens self tokens log 0 ci = Inr True) corpus)"
proof (induct corpus)
  case Nil
  then show ?case by simp
next
  case (Cons log rest)
  from Cons.prems[of log] obtain b where b: "evaluate_tokens self tokens log 0 ci = Inr b" by auto
  have "filter_logs self tokens ci rest =
       Inr (filter (\<lambda>log. evaluate_tokens self tokens log 0 ci = Inr True) rest)"
    by (rule Cons.hyps) (simp add: Cons.prems)
  with b show ?case by simp
qed

subsection \<open>The outcome of an evaluation does not depend on the line\<close>

text \<open>
  Whether an evaluation raises, and the position it returns, are decided by the tokens
  alone: the line and the case flag only decide the boolean.
\<close>

lemma same_outcome_Inr:
  "map_sum id snd x = map_sum id snd y \<Longrightarrow> x = Inr (r, p) \<Longrightarrow> \<exists>r'. y = Inr (r', p)"
  by (cases y) auto

lemma same_outcome_Inl:
  "map_sum id snd x = map_sum id snd y \<Longrightarrow> x = Inl e \<Longrightarrow> y = Inl e"
  by (cases y) auto

lemma eval_outcome_line_independent:
  "map_sum id snd (eval_next d tokens log ci pos) = map_sum id snd (eval_next d tokens log' ci' pos)"
  "map_sum id snd (eval_and d tokens log ci pos) = map_sum id snd (eval_and d tokens log' ci' pos)"
  "map_sum id snd (eval_and_loop d tokens log ci res pos) = map_sum id snd (eval_and_loop d tokens log' ci' res' pos)"
  "map_sum id snd (eval_or d tokens log ci pos) = map_sum id snd (eval_or d tokens log' ci' pos)"
  "map_sum id snd (eval_or_loop d tokens log ci res pos) = map_sum id snd (eval_or_loop d tokens log' ci' res' pos)"
proof (induct d tokens log ci pos and d tokens log ci pos and d tokens log ci res pos
          and d tokens log ci pos and d tokens log ci res pos
          arbitrary: and and res' and and res'
          rule: eval_next_eval_and_eval_and_loop_eval_or_eval_or_loop.induct)
  case (1 d tokens log ci pos)
  show ?case
  proof (cases "pos < length tokens")
    case False
    then show ?thesis by (simp add: eval_next.simps)
  next
    case True
    note lt = this
    show ?thesis
    proof (cases "tokens ! pos = op_LEFT_PARENTHESIS d")
      case True
      with lt 1(1)[OF lt refl True] show ?thesis
        apply (simp add: eval_next.simps[of d tokens _ _ pos])
        apply (cases "eval_or d tokens log ci (Suc pos)"; cases "eval_or d tokens log' ci' (Suc pos)")
        apply (auto)
        done
    next
      case False
      note nlp = this
      show ?thesis
      proof (cases "tokens ! pos = op_NOT d")
        case True
        with lt nlp 1(2)[OF lt refl nlp True] show ?thesis
          apply (simp add: eval_next.simps[of d tokens _ _ pos])
          apply (cases "eval_next d tokens log ci (Suc pos)"; cases "eval_next d tokens log' ci' (Suc pos)")
          apply (auto)
          done
      next
        case False
        with lt nlp show ?thesis
          by (simp add: eval_next.simps[of d tokens _ _ pos] Let_def)
      qed
    qed
  qed
next
  case (2 d tokens log ci pos)
  show ?case
  proof (cases "eval_next d tokens log ci pos")
    case (Inl e)
    with same_outcome_Inl[OF 2(1) Inl] show ?thesis
      by (simp add: eval_and.simps[of d tokens _ _ pos])
  next
    case (Inr rp)
    obtain r p where rp: "rp = (r, p)" by (cases rp)
    from same_outcome_Inr[OF 2(1) Inr[unfolded rp]]
    obtain r' where r': "eval_next d tokens log' ci' pos = Inr (r', p)" by blast
    from 2(2)[OF Inr[unfolded rp] refl, of r'] Inr rp r' show ?thesis
      by (simp add: eval_and.simps[of d tokens _ _ pos])
  qed
next
  case (3 d tokens log ci result next_pos)
  show ?case
  proof (cases "next_pos < length tokens \<and> tokens ! next_pos = op_AND d")
    case False
    then show ?thesis by (auto simp: eval_and_loop.simps[of d tokens _ _ _ next_pos])
  next
    case True
    show ?thesis
    proof (cases "eval_next d tokens log ci (next_pos + 1)")
      case (Inl e)
      with same_outcome_Inl[OF 3(1)[OF True] Inl] True show ?thesis
        by (simp add: eval_and_loop.simps[of d tokens _ _ _ next_pos])
    next
      case (Inr rp)
      obtain r p where rp: "rp = (r, p)" by (cases rp)
      from same_outcome_Inr[OF 3(1)[OF True] Inr[unfolded rp]]
      obtain r' where r': "eval_next d tokens log' ci' (next_pos + 1) = Inr (r', p)" by blast
      from 3(2)[OF True Inr[unfolded rp] refl, of "res' \<and> r'"] Inr rp r' True show ?thesis
        by (simp add: eval_and_loop.simps[of d tokens _ _ _ next_pos])
    qed
  qed
next
  case (4 d tokens log ci pos)
  show ?case
  proof (cases "eval_and d tokens log ci pos")
    case (Inl e)
    with same_outcome_Inl[OF 4(1) Inl] show ?thesis
      by (simp add: eval_or.simps[of d tokens _ _ pos])
  next
    case (Inr rp)
    obtain r p where rp: "rp = (r, p)" by (cases rp)
    from same_outcome_Inr[OF 4(1) Inr[unfolded rp]]
    obtain r' where r': "eval_and d tokens log' ci' pos = Inr (r', p)" by blast
    from 4(2)[OF Inr[unfolded rp] refl, of r'] Inr rp r' show ?thesis
      by (simp add: eval_or.simps[of d tokens _ _ pos])
  qed
next
  case (5 d tokens log ci result next_pos)
  show ?case
  proof (cases "next_pos < length tokens \<and> tokens ! next_pos = op_OR d")
    case False
    then show ?thesis by (auto simp: eval_or_loop.simps[of d tokens _ _ _ next_pos])
  next
    case True
    show ?thesis
    proof (cases "eval_and d tokens log ci (next_pos + 1)")
      case (Inl e)
      with same_outcome_Inl[OF 5(1)[OF True] Inl] True show ?thesis
        by (simp add: eval_or_loop.simps[of d tokens _ _ _ next_pos])
    next
      case (Inr rp)
      obtain r p where rp: "rp = (r, p)" by (cases rp)
      from same_outcome_Inr[OF 5(1)[OF True] Inr[unfolded rp]]
      obtain r' where r': "eval_and d tokens log' ci' (next_pos + 1) = Inr (r', p)" by blast
      from 5(2)[OF True Inr[unfolded rp] refl, of "res' \<or> r'"] Inr rp r' True show ?thesis
        by (simp add: eval_or_loop.simps[of d tokens _ _ _ next_pos])
    qed
  qed
qed

lemma evaluate_tokens_raises_everywhere:
  "evaluate_tokens self tokens log pos ci = Inl e \<Longrightarrow>
     evaluate_tokens self tokens log' pos ci' = Inl e"
proof -
  assume a: "evaluate_tokens self tokens log pos ci = Inl e"
  then have "eval_or (operationo_dict self) tokens log ci pos = Inl e"
    by (auto simp: evaluate_tokens_def split: sum.splits)
  with same_outcome_Inl[OF eval_outcome_line_independent(4)]
  have "eval_or (operationo_dict self) tokens log' ci' pos = Inl e" by blast
  then show ?thesis by (simp add: evaluate_tokens_def)
qed

lemma evaluate_tokens_returns_everywhere:
  assumes "evaluate_tokens self tokens log pos ci = Inr b"
  shows "\<exists>b'. evaluate_tokens self tokens log' pos ci' = Inr b'"
proof (cases "evaluate_tokens self tokens log' pos ci'")
  case (Inl e)
  from evaluate_tokens_raises_everywhere[OF this, of log ci] assms show ?thesis by simp
next
  case (Inr b')
  then show ?thesis by blast
qed

subsection \<open>Tokens before the position do not matter\<close>

lemma shift_simps [simp]:
  "shift n (Inl e) = Inl e"
  "shift n (Inr (r, p)) = Inr (r, n + p)"
  by (simp_all add: shift_def)

lemma eval_shift:
  "eval_next d (pre @ ts) log ci (length pre + pos) = shift (length pre) (eval_next d ts log ci pos)"
  "eval_and d (pre @ ts) log ci (length pre + pos) = shift (length pre) (eval_and d ts log ci pos)"
  "eval_and_loop d (pre @ ts) log ci res (length pre + pos) = shift (length pre) (eval_and_loop d ts log ci res pos)"
  "eval_or d (pre @ ts) log ci (length pre + pos) = shift (length pre) (eval_or d ts log ci pos)"
  "eval_or_loop d (pre @ ts) log ci res (length pre + pos) = shift (length pre) (eval_or_loop d ts log ci res pos)"
proof (induct d ts log ci pos and d ts log ci pos and d ts log ci res pos
          and d ts log ci pos and d ts log ci res pos
          rule: eval_next_eval_and_eval_and_loop_eval_or_eval_or_loop.induct)
  case (1 d ts log ci pos)
  show ?case
  proof (cases "pos < length ts")
    case False
    then show ?thesis
      by (simp add: eval_next.simps[of d _ log ci "length pre + pos"] eval_next.simps[of d ts log ci pos])
  next
    case True
    note lt = this
    show ?thesis
    proof (cases "ts ! pos = op_LEFT_PARENTHESIS d")
      case True
      from 1(1)[OF lt refl True] lt True show ?thesis
        by (cases "eval_or d ts log ci (pos + 1)")
           (auto simp: eval_next.simps[of d _ log ci "length pre + pos"]
              eval_next.simps[of d ts log ci pos] nth_append)
    next
      case False
      note nlp = this
      show ?thesis
      proof (cases "ts ! pos = op_NOT d")
        case True
        from 1(2)[OF lt refl nlp True] lt nlp True show ?thesis
          by (cases "eval_next d ts log ci (pos + 1)")
             (auto simp: eval_next.simps[of d _ log ci "length pre + pos"]
                eval_next.simps[of d ts log ci pos] nth_append)
      next
        case False
        with lt nlp show ?thesis
          by (simp add: eval_next.simps[of d _ log ci "length pre + pos"]
                eval_next.simps[of d ts log ci pos] nth_append Let_def)
      qed
    qed
  qed
next
  case (2 d ts log ci pos)
  show ?case
  proof (cases "eval_next d ts log ci pos")
    case (Inl e)
    with 2(1) show ?thesis
      by (simp add: eval_and.simps[of d _ log ci "length pre + pos"] eval_and.simps[of d ts log ci pos])
  next
    case (Inr rp)
    obtain r p where rp: "rp = (r, p)" by (cases rp)
    from 2(2)[OF Inr[unfolded rp] refl] 2(1) Inr rp show ?thesis
      by (simp add: eval_and.simps[of d _ log ci "length pre + pos"] eval_and.simps[of d ts log ci pos])
  qed
next
  case (3 d ts log ci result next_pos)
  show ?case
  proof (cases "next_pos < length ts \<and> ts ! next_pos = op_AND d")
    case False
    then show ?thesis
      by (auto simp: eval_and_loop.simps[of d _ log ci result "length pre + next_pos"]
            eval_and_loop.simps[of d ts log ci result next_pos] nth_append)
  next
    case True
    show ?thesis
    proof (cases "eval_next d ts log ci (next_pos + 1)")
      case (Inl e)
      with 3(1)[OF True] True show ?thesis
        by (simp add: eval_and_loop.simps[of d _ log ci result "length pre + next_pos"]
            eval_and_loop.simps[of d ts log ci result next_pos] nth_append)
    next
      case (Inr rp)
      obtain r p where rp: "rp = (r, p)" by (cases rp)
      from 3(2)[OF True Inr[unfolded rp] refl] 3(1)[OF True] Inr rp True show ?thesis
        by (simp add: eval_and_loop.simps[of d _ log ci result "length pre + next_pos"]
            eval_and_loop.simps[of d ts log ci result next_pos] nth_append)
    qed
  qed
next
  case (4 d ts log ci pos)
  show ?case
  proof (cases "eval_and d ts log ci pos")
    case (Inl e)
    with 4(1) show ?thesis
      by (simp add: eval_or.simps[of d _ log ci "length pre + pos"] eval_or.simps[of d ts log ci pos])
  next
    case (Inr rp)
    obtain r p where rp: "rp = (r, p)" by (cases rp)
    from 4(2)[OF Inr[unfolded rp] refl] 4(1) Inr rp show ?thesis
      by (simp add: eval_or.simps[of d _ log ci "length pre + pos"] eval_or.simps[of d ts log ci pos])
  qed
next
  case (5 d ts log ci result next_pos)
  show ?case
  proof (cases "next_pos < length ts \<and> ts ! next_pos = op_OR d")
    case False
    then show ?thesis
      by (auto simp: eval_or_loop.simps[of d _ log ci result "length pre + next_pos"]
            eval_or_loop.simps[of d ts log ci result next_pos] nth_append)
  next
    case True
    show ?thesis
    proof (cases "eval_and d ts log ci (next_pos + 1)")
      case (Inl e)
      with 5(1)[OF True] True show ?thesis
        by (simp add: eval_or_loop.simps[of d _ log ci result "length pre + next_pos"]
            eval_or_loop.simps[of d ts log ci result next_pos] nth_append)
    next
      case (Inr rp)
      obtain r p where rp: "rp = (r, p)" by (cases rp)
      from 5(2)[OF True Inr[unfolded rp] refl] 5(1)[OF True] Inr rp True show ?thesis
        by (simp add: eval_or_loop.simps[of d _ log ci result "length pre + next_pos"]
            eval_or_loop.simps[of d ts log ci result next_pos] nth_append)
    qed
  qed
qed

subsection \<open>Splitting and scanning\<close>

lemma split_scan_not_Nil: "split_scan sep piece k s \<noteq> []"
  by (induct sep piece k s rule: split_scan.induct) auto

lemma join_str_Cons: "ys \<noteq> [] \<Longrightarrow> join_str sep (x # ys) = x @ sep @ join_str sep ys"
  by (cases ys) auto

lemma prefix_drop_pred:
  assumes "prefix sep (c # cs)" "sep \<noteq> []"
  shows "sep @ drop (length sep - Suc 0) cs = c # cs"
proof -
  from assms(1) obtain zs where zs: "c # cs = sep @ zs" by (auto simp: prefix_def)
  from assms(2) obtain s ss where sep: "sep = s # ss" by (cases sep) auto
  with zs have "cs = ss @ zs" by simp
  with sep zs show ?thesis by simp
qed

lemma join_split_scan:
  "sep \<noteq> [] \<Longrightarrow> join_str sep (split_scan sep piece k s) = rev piece @ drop k s"
proof (induct sep piece k s rule: split_scan.induct)
  case (1 sep piece skip)
  then show ?case by simp
next
  case (2 sep piece skip c cs)
  then show ?case by simp
next
  case (3 sep piece c cs)
  show ?case
  proof (cases "prefix sep (c # cs)")
    case True
    with 3 show ?thesis
      by (simp add: join_str_Cons split_scan_not_Nil prefix_drop_pred)
  next
    case False
    with 3 show ?thesis by simp
  qed
qed

lemma split_scan_skip_prefix:
  "(\<And>i. i < length pre \<Longrightarrow> \<not> prefix sep (drop i pre @ S)) \<Longrightarrow>
     split_scan sep piece 0 (pre @ S) = split_scan sep (rev pre @ piece) 0 S"
proof (induct pre arbitrary: piece)
  case Nil
  then show ?case by simp
next
  case (Cons x xs)
  from Cons.prems[of 0] have nx: "\<not> prefix sep (x # xs @ S)" by simp
  have "\<And>i. i < length xs \<Longrightarrow> \<not> prefix sep (drop i xs @ S)"
    using Cons.prems[of "Suc i" for i] by simp
  from Cons.hyps[OF this, of "x # piece"] nx show ?case by simp
qed

lemma findall_scan_skip_prefix:
  "(\<And>i. i < length pre \<Longrightarrow> first_match alts (drop i pre @ S) = None) \<Longrightarrow>
     findall_scan alts 0 (pre @ S) = findall_scan alts 0 S"
proof (induct pre)
  case Nil
  then show ?case by simp
next
  case (Cons x xs)
  from Cons.prems[of 0] have nx: "first_match alts (x # xs @ S) = None" by simp
  have "\<And>i. i < length xs \<Longrightarrow> first_match alts (drop i xs @ S) = None"
    using Cons.prems[of "Suc i" for i] by simp
  from Cons.hyps[OF this] nx show ?case by simp
qed

lemma first_match_None_iff:
  "first_match alts s = None \<longleftrightarrow> (\<forall>p \<in> set alts. p = [] \<or> \<not> prefix p s)"
  by (induct alts) auto

lemma tokenize_loop_acc:
  "tokenize_loop ops acc cur =
     (case tokenize_loop ops [] cur of Inl e \<Rightarrow> Inl e | Inr (ts, c) \<Rightarrow> Inr (acc @ ts, c))"
proof (induct ops arbitrary: acc cur)
  case Nil
  then show ?case by simp
next
  case (Cons operation ops)
  show ?case
  proof (cases "split_str cur operation")
    case (Inl e)
    then show ?thesis by simp
  next
    case (Inr subs)
    let ?new = "(if hd subs \<noteq> [] then [hd subs] else []) @ [operation]"
    have "tokenize_loop (operation # ops) acc cur
        = tokenize_loop ops (acc @ ?new) (join_str operation (tl subs))"
      using Inr by simp
    also have "\<dots> = (case tokenize_loop ops [] (join_str operation (tl subs)) of
           Inl e \<Rightarrow> Inl e | Inr (ts, c) \<Rightarrow> Inr ((acc @ ?new) @ ts, c))"
      by (rule Cons.hyps)
    finally have l: "tokenize_loop (operation # ops) acc cur =
        (case tokenize_loop ops [] (join_str operation (tl subs)) of
           Inl e \<Rightarrow> Inl e | Inr (ts, c) \<Rightarrow> Inr ((acc @ ?new) @ ts, c))" .
    have "tokenize_loop (operation # ops) [] cur
        = tokenize_loop ops ?new (join_str operation (tl subs))"
      using Inr by simp
    also have "\<dots> = (case tokenize_loop ops [] (join_str operation (tl subs)) of
           Inl e \<Rightarrow> Inl e | Inr (ts, c) \<Rightarrow> Inr (?new @ ts, c))"
      by (rule Cons.hyps)
    finally have r: "tokenize_loop (operation # ops) [] cur =
        (case tokenize_loop ops [] (join_str operation (tl subs)) of
           Inl e \<Rightarrow> Inl e | Inr (ts, c) \<Rightarrow> Inr (?new @ ts, c))" .
    show ?thesis unfolding l r
      by (cases "tokenize_loop ops [] (join_str operation (tl subs))") auto
  qed
qed

lemma two_char_boundary:
  assumes "\<not> sublist [c, c'] A" "S = [] \<or> hd S \<noteq> c'" "i < length A"
  shows "\<not> prefix [c, c'] (drop i A @ S)"
proof
  assume p: "prefix [c, c'] (drop i A @ S)"
  from assms(3) obtain x xs where d: "drop i A = x # xs"
    by (cases "drop i A") auto
  show False
  proof (cases xs)
    case Nil
    with p d assms(2) show False by (cases S) auto
  next
    case (Cons y ys)
    with p d have "prefix [c, c'] (drop i A)" by simp
    then have "sublist [c, c'] (drop i A)" by (rule prefix_imp_sublist)
    then have "sublist [c, c'] A"
      by (metis sublist_drop sublist_order.order_trans)
    with assms(1) show False by simp
  qed
qed

subsection \<open>Tokens of some queries of the default querier\<close>

lemma tokenize_trailing_and:
  "tokenize (default_querier a) ''a &&'' = Inr [''a'', ''&&'']"
  by (simp add: tok_eval_defs)

lemma tokenize_leading_and:
  "tokenize (default_querier a) ''&& a'' = Inr [''&&'', ''a'']"
  by (simp add: tok_eval_defs)

lemma tokenize_spaces: "tokenize (default_querier a) ''   '' = Inr []"
  by (simp add: tok_eval_defs)

lemma tokenize_quotes: "tokenize (default_querier a) [CHR 0x22, CHR 0x22] = Inr []"
  by (simp add: tok_eval_defs)

lemma tokenize_b: "tokenize (default_querier a) ''b'' = Inr [''b'']"
  by (simp add: tok_eval_defs)

lemma eval_trailing_and:
  "evaluate_tokens (default_querier a) [''a'', ''&&''] log 0 ci = Inr False"
  by (simp add: evaluate_tokens_def default_querier_dict eval_simps Let_def
        INVALID_EVAL_OPERATION_SET_eq)

lemma eval_leading_and:
  "evaluate_tokens (default_querier a) [''&&'', ''a''] log 0 ci =
     Inl (InvalidOperationToken ''&&'')"
  by (simp add: evaluate_tokens_def default_querier_dict eval_simps Let_def
        INVALID_EVAL_OPERATION_SET_eq)

lemma eval_b:
  "evaluate_tokens (default_querier a) [''b''] log 0 False = Inr (sublist ''b'' log)"
  by (simp add: evaluate_tokens_def default_querier_dict eval_simps Let_def
        INVALID_EVAL_OPERATION_SET_eq)

lemma matches_b: "matches (default_querier a) ''b'' False log = sublist ''b'' log"
  by (simp add: matches_def query_tokens_def tokenize_b eval_b)

subsection \<open>The query with a match\<close>

lemma query_result_matches:
  assumes "\<exists>log \<in> set (h ! logs self). matches self q ci log"
  shows "query_result self h q limit ord ci =
     Inr (let ms = filter (matches self q ci) (h ! logs self) in
          if truthy limit then
            (if ord = ''asc'' then slice_from (- the limit) ms else rev (slice_to (the limit) ms))
          else ms)"
proof -
  from assms obtain l where l: "l \<in> set (h ! logs self)" "matches self q ci l" by blast
  from l(2) obtain tokens where t: "query_tokens self q = Inr tokens"
    and m: "tokens = [] \<or> evaluate_tokens self tokens l 0 ci = Inr True"
    by (auto simp: matches_def split: sum.splits)
  have ms: "matches self q ci = (\<lambda>log. tokens = [] \<or> evaluate_tokens self tokens log 0 ci = Inr True)"
    using t by (simp add: matches_def fun_eq_iff)
  show ?thesis
  proof (cases "tokens = []")
    case True
    with t ms show ?thesis
      by (simp add: query_result_eq Let_def)
  next
    case False
    with m have "evaluate_tokens self tokens l 0 ci = Inr True" by simp
    from evaluate_tokens_returns_everywhere[OF this]
    have "filter_logs self tokens ci (h ! logs self) =
       Inr (filter (\<lambda>log. evaluate_tokens self tokens log 0 ci = Inr True) (h ! logs self))"
      by (intro filter_logs_returns) blast
    with False t ms show ?thesis
      by (simp add: query_result_eq Let_def)
  qed
qed

subsection \<open>Two negations in front of the tokens\<close>

lemma eval_next_double_not:
  assumes "op_NOT d = n" "n \<noteq> op_LEFT_PARENTHESIS d"
  shows "eval_next d (n # n # ts) log ci 0 = shift 2 (eval_next d ts log ci 0)"
proof -
  have s: "eval_next d ([n, n] @ ts) log ci (length [n, n] + 0)
      = shift (length [n, n]) (eval_next d ts log ci 0)"
    by (rule eval_shift(1))
  have "eval_next d (n # n # ts) log ci 0 =
      (case eval_next d (n # n # ts) log ci 2 of Inl e \<Rightarrow> Inl e | Inr (r, p) \<Rightarrow> Inr (r, p))"
    using assms
    by (simp add: eval_next.simps[of d _ log ci 0] eval_next.simps[of d _ log ci "Suc 0"]
          numeral_2_eq_2 split: sum.splits)
  also have "\<dots> = eval_next d (n # n # ts) log ci 2"
    by (simp split: sum.splits)
  finally show ?thesis using s by (simp add: numeral_2_eq_2)
qed

lemma eval_and_double_not:
  assumes "op_NOT d = n" "n \<noteq> op_LEFT_PARENTHESIS d"
  shows "eval_and d (n # n # ts) log ci 0 = shift 2 (eval_and d ts log ci 0)"
proof (cases "eval_next d ts log ci 0")
  case (Inl e)
  with eval_next_double_not[OF assms, of ts log ci] show ?thesis
    by (simp add: eval_and.simps[of d _ log ci 0] numeral_2_eq_2)
next
  case (Inr rp)
  obtain r p where rp: "rp = (r, p)" by (cases rp)
  have "eval_and_loop d ([n, n] @ ts) log ci r (length [n, n] + p)
      = shift (length [n, n]) (eval_and_loop d ts log ci r p)"
    by (rule eval_shift(3))
  with Inr rp eval_next_double_not[OF assms, of ts log ci] show ?thesis
    by (simp add: eval_and.simps[of d _ log ci 0] numeral_2_eq_2)
qed

lemma eval_or_double_not:
  assumes "op_NOT d = n" "n \<noteq> op_LEFT_PARENTHESIS d"
  shows "eval_or d (n # n # ts) log ci 0 = shift 2 (eval_or d ts log ci 0)"
proof (cases "eval_and d ts log ci 0")
  case (Inl e)
  with eval_and_double_not[OF assms, of ts log ci] show ?thesis
    by (simp add: eval_or.simps[of d _ log ci 0] numeral_2_eq_2)
next
  case (Inr rp)
  obtain r p where rp: "rp = (r, p)" by (cases rp)
  have "eval_or_loop d ([n, n] @ ts) log ci r (length [n, n] + p)
      = shift (length [n, n]) (eval_or_loop d ts log ci r p)"
    by (rule eval_shift(5))
  with Inr rp eval_and_double_not[OF assms, of ts log ci] show ?thesis
    by (simp add: eval_or.simps[of d _ log ci 0] numeral_2_eq_2)
qed

lemma evaluate_tokens_double_not:
  assumes "op_NOT (operationo_dict self) = n" "n \<noteq> op_LEFT_PARENTHESIS (operationo_dict self)"
  shows "evaluate_tokens self (n # n # ts) log 0 ci = evaluate_tokens self ts log 0 ci"
  using eval_or_double_not[OF assms, of ts log ci]
  by (cases "eval_or (operationo_dict self) ts log ci 0") (auto simp: evaluate_tokens_def)

lemma tokenize_default:
  "tokenize (default_querier a) q =
     (case tokenize_loop (findall [''&&'', ''||'', ''!!'', ''(('', ''))''] q) [] q of
        Inl e \<Rightarrow> Inl e
      | Inr (tokens, current_query) \<Rightarrow>
          Inr (map (parse_quoted_token (default_querier a))
                (filter (\<lambda>token. parse_quoted_token (default_querier a) token \<noteq> [])
                  (if current_query \<noteq> [] then tokens @ [current_query] else tokens))))"
  by (simp add: tokenize_def default_querier_dict dict_values_def)

lemma parse_not: "parse_quoted_token (default_querier a) ''!!'' = ''!!''"
  by (simp add: tok_eval_defs)

lemma tokenize_double_not:
  "tokenize (default_querier a) (''!!!!'' @ X) =
     (case tokenize (default_querier a) X of Inl e \<Rightarrow> Inl e | Inr ts \<Rightarrow> Inr (''!!'' # ''!!'' # ts))"
proof -
  let ?alts = "[''&&'', ''||'', ''!!'', ''(('', ''))'']"
  have f: "findall ?alts (''!!!!'' @ X) = ''!!'' # ''!!'' # findall ?alts X"
    by (simp add: findall_def)
  have l: "tokenize_loop (''!!'' # ''!!'' # ops) [] (''!!!!'' @ X) = tokenize_loop ops [''!!'', ''!!''] X" for ops
    by (simp add: split_str_def join_str_Cons split_scan_not_Nil join_split_scan)
  show ?thesis
    unfolding tokenize_default f l
    by (subst tokenize_loop_acc)
       (auto simp: parse_not split: sum.splits prod.splits)
qed

subsection \<open>Tokens of queries with operands\<close>

lemma is_space_space [simp]: "is_space CHR '' ''"
  by (simp add: is_space_def)

lemma strip_space_left: "strip (CHR '' '' # s) = strip s"
  by (simp add: strip_def)

lemma strip_space_right: "strip (s @ '' '') = strip s"
proof (cases "\<forall>x \<in> set s. is_space x")
  case True
  then have d: "dropWhile is_space s = []" by (simp add: dropWhile_eq_Nil_conv)
  have e: "dropWhile is_space (s @ '' '') = []" using True by (simp add: dropWhile_append)
  show ?thesis unfolding strip_def d e by simp
next
  case False
  then have e: "dropWhile is_space (s @ '' '') = dropWhile is_space s @ '' ''"
    by (simp add: dropWhile_append)
  show ?thesis unfolding strip_def e by simp
qed

lemma parse_space_left:
  "parse_quoted_token self (CHR '' '' # s) = parse_quoted_token self s"
  by (simp add: parse_quoted_token_def strip_space_left strip_space_right)

lemma parse_space_right:
  "parse_quoted_token self (s @ '' '') = parse_quoted_token self s"
  by (simp add: parse_quoted_token_def strip_space_left strip_space_right)

lemma findall_scan_no_literal:
  assumes "\<forall>lit \<in> set alts. \<not> sublist lit s"
  shows "findall_scan alts 0 s = []"
proof -
  have "first_match alts (drop i s @ []) = None" for i
  proof -
    have "\<not> prefix p (drop i s)" if "p \<in> set alts" for p
    proof
      assume "prefix p (drop i s)"
      then have "sublist p (drop i s)" by (rule prefix_imp_sublist)
      then have "sublist p s" by (metis sublist_drop sublist_order.order_trans)
      with assms that show False by blast
    qed
    then show ?thesis by (auto simp: first_match_None_iff)
  qed
  from findall_scan_skip_prefix[of s alts "[]", OF this] show ?thesis by simp
qed

lemma findall_scan_operand_space:
  assumes "\<forall>lit \<in> set default_alts. \<not> sublist lit A"
  shows "findall_scan default_alts 0 (A @ CHR '' '' # S) = findall_scan default_alts 0 S"
proof -
  have "first_match default_alts (drop i A @ CHR '' '' # S) = None" if "i < length A" for i
    using assms two_char_boundary[of _ _ A "CHR '' '' # S" i] that
    by (simp add: first_match_None_iff default_alts_def)
  from findall_scan_skip_prefix[of A default_alts "CHR '' '' # S", OF this]
  show ?thesis by (simp add: default_alts_def)
qed

lemma findall_scan_operand_op:
  assumes "\<forall>lit \<in> set default_alts. \<not> sublist lit A" "[c, c] \<in> set default_alts"
  shows "findall_scan default_alts 0 (A @ CHR '' '' # c # c # CHR '' '' # S)
     = [c, c] # findall_scan default_alts 0 S"
proof -
  have "findall_scan default_alts 0 (c # c # CHR '' '' # S) = [c, c] # findall_scan default_alts 0 S"
    using assms(2) by (auto simp: default_alts_def)
  with findall_scan_operand_space[OF assms(1)] show ?thesis by simp
qed

lemma split_scan_operand_space:
  assumes "\<not> sublist [c, c] A" "c \<noteq> CHR '' ''"
  shows "split_scan [c, c] piece 0 (A @ CHR '' '' # c # c # rest)
     = (rev piece @ A @ '' '') # split_scan [c, c] [] 0 rest"
proof -
  have "\<not> prefix [c, c] (drop i A @ CHR '' '' # c # c # rest)" if "i < length A" for i
    using two_char_boundary[OF assms(1), of "CHR '' '' # c # c # rest" i] assms(2) that by simp
  from split_scan_skip_prefix[of A "[c, c]" "CHR '' '' # c # c # rest" piece, OF this] assms(2)
  show ?thesis by simp
qed

lemma tokenize_and_or:
  assumes "is_operand (default_querier a) A" "is_operand (default_querier a) B"
    "is_operand (default_querier a) C"
  shows "tokenize (default_querier a) (A @ '' && '' @ B @ '' || '' @ C)
     = Inr [A, ''&&'', B, ''||'', C]"
proof -
  let ?q = "A @ '' && '' @ B @ '' || '' @ C"
  from assms have nA: "\<forall>lit \<in> set default_alts. \<not> sublist lit A"
    and nB: "\<forall>lit \<in> set default_alts. \<not> sublist lit B"
    and nC: "\<forall>lit \<in> set default_alts. \<not> sublist lit C"
    by (simp_all add: is_operand_def default_querier_dict dict_values_def default_alts_def)
  from assms have p: "parse_quoted_token (default_querier a) A = A"
      "parse_quoted_token (default_querier a) B = B" "parse_quoted_token (default_querier a) C = C"
    and ne: "A \<noteq> []" "B \<noteq> []" "C \<noteq> []"
    by (simp_all add: is_operand_def)
  have ops: "''&&'' \<in> set default_alts" "''||'' \<in> set default_alts"
    by (simp_all add: default_alts_def)
  have f: "findall default_alts ?q = [''&&'', ''||'']"
    using findall_scan_no_literal[OF nC]
    by (simp add: findall_def findall_scan_operand_op[OF nA ops(1)]
          findall_scan_operand_op[OF nB ops(2)])
  have sA: "\<not> sublist ''&&'' A" and sB: "\<not> sublist ''||'' B"
    using nA nB by (simp_all add: default_alts_def)
  have l: "tokenize_loop [''&&'', ''||''] [] ?q
      = Inr ([A @ '' '', ''&&'', '' '' @ B @ '' '', ''||''], '' '' @ C)"
    using split_scan_operand_space[OF sA, of "[]"] split_scan_operand_space[OF sB, of "'' ''"]
    by (simp add: split_str_def join_split_scan join_str_Cons split_scan_not_Nil)
  have po: "parse_quoted_token (default_querier a) ''&&'' = ''&&''"
      "parse_quoted_token (default_querier a) ''||'' = ''||''"
    by (simp_all add: tok_eval_defs)
  show ?thesis
    unfolding tokenize_default f[unfolded default_alts_def] l
    using p ne by (simp add: po parse_space_left parse_space_right)
qed


lemma operand_not_literal:
  assumes "is_operand self s" "lit \<in> set (dict_values (operationo_dict self))"
  shows "s \<noteq> lit"
  using assms by (auto simp: is_operand_def)

lemma eval_and_or_tokens:
  assumes "A \<notin> {''&&'', ''||'', ''!!'', ''(('', ''))''}"
      "B \<notin> {''&&'', ''||'', ''!!'', ''(('', ''))''}"
      "C \<notin> {''&&'', ''||'', ''!!'', ''(('', ''))''}"
  shows "evaluate_tokens (default_querier a) [A, ''&&'', B, ''||'', C] log 0 ci
     = Inr ((line_has ci A log \<and> line_has ci B log) \<or> line_has ci C log)"
  using assms
  by (simp add: evaluate_tokens_def default_querier_dict eval_simps Let_def
        INVALID_EVAL_OPERATION_SET_eq line_has_def)

lemma is_operand_abc:
  "is_operand (default_querier a) ''a''" "is_operand (default_querier a) ''b''"
  "is_operand (default_querier a) ''c''"
  by (simp_all add: is_operand_def tok_eval_defs sublist_Cons_right)

lemma parse_Nil: "parse_quoted_token self [] = []"
  by (simp add: parse_quoted_token_def strip_def replace_str_def)

lemma tokenize_no_literal:
  assumes "\<forall>lit \<in> set (dict_values (operationo_dict self)). \<not> sublist lit q"
  shows "tokenize self q =
     Inr (if parse_quoted_token self q \<noteq> [] then [parse_quoted_token self q] else [])"
proof -
  from assms have "[] \<notin> set (dict_values (operationo_dict self))" by auto
  with findall_scan_no_literal[OF assms] show ?thesis
    by (auto simp: tokenize_def findall_def parse_Nil)
qed

lemma eval_single_operand:
  assumes "t \<noteq> op_LEFT_PARENTHESIS d" "t \<noteq> op_NOT d" "t \<notin> INVALID_EVAL_OPERATION_SET"
  shows "eval_or d [t] log ci 0 = Inr (line_has ci t log, 1)"
  using assms by (simp add: eval_simps Let_def line_has_def)

lemma line_has_Nil: "line_has ci [] log"
  by (simp add: line_has_def lower_def)

subsection \<open>Operator literals where a term is expected\<close>

lemma eval_next_invalid_default:
  assumes "pos < length tokens" "tokens ! pos \<in> {''&&'', ''||'', ''))''}"
  shows "eval_next (operationo_dict (default_querier a)) tokens log ci pos
     = Inl (InvalidOperationToken (tokens ! pos))"
  using assms
  by (auto simp: eval_next.simps[of _ tokens log ci pos] default_querier_dict Let_def
        INVALID_EVAL_OPERATION_SET_eq)

lemma leading_and_raises:
  "evaluate_query (default_querier a) ''&& a'' log ci = Inl (InvalidOperationToken ''&&'')"
  by (simp add: evaluate_query_def tokenize_leading_and eval_leading_and)

text \<open>C10\<close>



lemma word_querier_dict:
  "operationo_dict (init a WORD_DICT QUOTE_STRING) =
     \<lparr>op_AND = ''AND'', op_OR = ''OR'', op_NOT = ''NOT'',
      op_LEFT_PARENTHESIS = ''(('', op_RIGHT_PARENTHESIS = ''))''\<rparr>"
  by (simp add: init_def WORD_DICT_def unescape_simps)
     (simp add: unescape_def replace_str_def backslash_def)

lemma word_querier_fields:
  "logs (init a d q) = a" "quote_string (init a d q) = q"
  by (simp_all add: init_def)

subsection \<open>Raw entries inside and outside the escaped literals\<close>

lemma escaped_literal_examples:
  "escaped_literal [backslash, CHR ''&'', backslash, CHR ''&'']"
  "escaped_literal ''AND''"
  "\<not> escaped_literal ''.''"
  "\<not> escaped_literal ''(a)''"
  "\<not> escaped_literal [backslash, CHR ''d'']"
  by code_simp+

section \<open>The claims\<close>

text \<open>
  C1. For every corpus, every query that at least one line of the corpus matches, every
  positive limit \<open>n\<close> and every case setting: with the limit and the ordering \<open>asc\<close>
  the query returns the last \<open>n\<close> matching lines, in the order of the corpus; with the
  ordering \<open>desc\<close> it returns the first \<open>n\<close> matching lines, reversed; with no limit
  it returns all the matching lines, in the order of the corpus.
\<close>

theorem query_limit_ordering:
  assumes "\<exists>log \<in> set (h ! logs self). matches self q ci log" and "0 < n"
  shows "(let ms = filter (matches self q ci) (h ! logs self) in
          query_result self h q (Some n) ''asc'' ci = Inr (drop (length ms - nat n) ms) \<and>
          query_result self h q (Some n) ''desc'' ci = Inr (rev (take (nat n) ms)) \<and>
          query_result self h q None ord ci = Inr ms)"
  using assms(2)
  by (simp add: query_result_matches[OF assms(1)] Let_def truthy_def slice_from_def slice_to_def)

theorem query_limit_ordering_witness:
  "query_result (default_querier 0) [[''ab'', ''c'', ''b'', ''bb'']] ''b'' (Some 2) ''asc'' False
     = Inr [''b'', ''bb''] \<and>
   query_result (default_querier 0) [[''ab'', ''c'', ''b'', ''bb'']] ''b'' (Some 2) ''desc'' False
     = Inr [''b'', ''ab''] \<and>
   query_result (default_querier 0) [[''ab'', ''c'', ''b'', ''bb'']] ''b'' None ''asc'' False
     = Inr [''ab'', ''b'', ''bb'']"
proof -
  have m: "\<exists>log \<in> set ([[''ab'', ''c'', ''b'', ''bb'']] ! logs (default_querier 0)).
      matches (default_querier 0) ''b'' False log"
    by (simp add: default_querier_fields matches_b)
  have two: "(0::int) < 2" by simp
  from query_limit_ordering[OF m two, of "''asc''"] show ?thesis
    by (simp add: default_querier_fields matches_b Let_def sublist_Cons_right)
qed

text \<open>
  C2. The code at the input that the claim fails on. The claim: for every operator
  configuration, the AND, OR or RIGHT\_PARENTHESIS literal of the configuration raises
  where a term is expected. \<open>eval_next\<close> tests the token against the set
  \<open>INVALID_EVAL_OPERATION_SET\<close> of the module, made of the default literals, and not
  against the dictionary of the querier, which its two branches before do. For the
  querier of \<open>WORD_DICT\<close>, whose AND literal is \<open>AND\<close>, the query \<open>AND a\<close> has
  the tokens \<open>AND\<close> and \<open>a\<close>; \<open>eval_next\<close> at position 0 takes \<open>AND\<close> as an
  operand and returns, and the query returns the lines that contain \<open>AND\<close>. For the
  default dictionary the claim holds (\<open>eval_next_invalid_default\<close>,
  \<open>leading_and_raises\<close>).
\<close>

theorem custom_and_literal_not_rejected:
  "op_AND (operationo_dict (init 0 WORD_DICT QUOTE_STRING)) = ''AND'' \<and>
   tokenize (init 0 WORD_DICT QUOTE_STRING) ''AND a'' = Inr [''AND'', ''a''] \<and>
   eval_next (operationo_dict (init 0 WORD_DICT QUOTE_STRING)) [''AND'', ''a''] ''x AND y'' False 0
     = Inr (True, 1) \<and>
   query_result (init 0 WORD_DICT QUOTE_STRING) [[''x AND y'', ''z'']] ''AND a'' None ''asc'' False
     = Inr [''x AND y'']"
  by code_simp

text \<open>
  C3. When a term is expected at a position at or beyond the end of the tokens,
  \<open>eval_next\<close> returns false and the position it was given, and raises nothing. For the
  default querier, the query \<open>a &&\<close> evaluates to false against every line, and the
  query operation returns the empty list for every corpus, limit, ordering and case
  setting.
\<close>

theorem exhausted_tokens_fallback:
  "eval_next d tokens log ci (length tokens + k) = Inr (False, length tokens + k) \<and>
   evaluate_query (default_querier a) ''a &&'' log ci = Inr False \<and>
   query_result (default_querier a) h ''a &&'' limit ord ci = Inr []"
  by (simp add: eval_next.simps[of d tokens log ci "length tokens + k"] evaluate_query_def
        tokenize_trailing_and eval_trailing_and query_result_eq query_tokens_def
        filter_logs_all_False)

theorem exhausted_tokens_fallback_witness:
  "eval_next (operationo_dict (default_querier 0)) [''a'', ''&&''] ''a line'' False 2
     = Inr (False, 2) \<and>
   evaluate_query (default_querier 0) ''a &&'' ''a line'' False = Inr False \<and>
   query_result (default_querier 0) [[''a line'', ''b'']] ''a &&'' (Some 1) ''desc'' False = Inr []"
  using exhausted_tokens_fallback[of "operationo_dict (default_querier 0)" "[''a'', ''&&'']"
      "''a line''" False 0 0 "[[''a line'', ''b'']]" "Some 1" "''desc''"]
  by (simp add: numeral_2_eq_2)

text \<open>
  C4, as the claim states it, fails: the query \<open>quoted_not\<close> holds no operator
  literal, its text without the quote marker is the NOT literal, and for the default
  querier the query returns both lines of the corpus, not the one line that contains
  the text.
\<close>

theorem quoted_not_query_counterexample:
  "\<not> sublist ''&&'' quoted_not \<and> \<not> sublist ''||'' quoted_not \<and> \<not> sublist ''!!'' quoted_not \<and>
   \<not> sublist ''(('' quoted_not \<and> \<not> sublist ''))'' quoted_not \<and>
   parse_quoted_token (default_querier 0) quoted_not = ''!!'' \<and>
   query_result (default_querier 0) [[''a!!b'', ''c'']] quoted_not None ''asc'' False
     = Inr [''a!!b'', ''c''] \<and>
   filter (line_has False ''!!'') [''a!!b'', ''c''] = [''a!!b'']"
  by code_simp

text \<open>
  C4, amended. For every querier that \<open>init\<close> builds from a dictionary whose five raw
  entries are escaped literals, as the entries of \<open>OPERATION_DICT\<close> are, for every
  corpus and every query string in which no operator literal of the querier occurs,
  and whose text, trimmed and without the quote marker, is not the LEFT\_PARENTHESIS
  literal or the NOT literal of the querier and is none of the literals of
  \<open>INVALID_EVAL_OPERATION_SET\<close>: the query with no limit returns the lines of the
  corpus, in its order, that contain that text, tested on the lowercased operand and
  line when the case flag is set and on the strings themselves otherwise.
\<close>

theorem operand_query_selects_lines:
  assumes "self = init logs_ref raw_operation_dict quote"
    and "\<forall>entry \<in> set (dict_values raw_operation_dict). escaped_literal entry"
    and "\<forall>lit \<in> set (dict_values (operationo_dict self)). \<not> sublist lit q"
    and "parse_quoted_token self q \<noteq> op_LEFT_PARENTHESIS (operationo_dict self)"
    and "parse_quoted_token self q \<noteq> op_NOT (operationo_dict self)"
    and "parse_quoted_token self q \<notin> INVALID_EVAL_OPERATION_SET"
  shows "query_result self h q None ord ci =
     Inr (filter (line_has ci (parse_quoted_token self q)) (h ! logs self))"
proof (cases "parse_quoted_token self q = []")
  case True
  then show ?thesis
    by (simp add: query_result_eq query_tokens_def tokenize_no_literal[OF assms(3)] truthy_def
          line_has_Nil)
next
  case False
  let ?t = "parse_quoted_token self q"
  have e: "evaluate_tokens self [?t] log 0 ci = Inr (line_has ci ?t log)" for log
    using eval_single_operand[OF assms(4,5,6)] by (simp add: evaluate_tokens_def)
  have "filter_logs self [?t] ci (h ! logs self) =
       Inr (filter (\<lambda>log. evaluate_tokens self [?t] log 0 ci = Inr True) (h ! logs self))"
    by (rule filter_logs_returns) (simp add: e)
  moreover from False have "q \<noteq> []" by (auto simp: parse_Nil)
  ultimately show ?thesis using False
    by (simp add: query_result_eq query_tokens_def tokenize_no_literal[OF assms(3)] truthy_def e)
qed

theorem operand_query_selects_lines_witness:
  "query_result (default_querier 0) [[''Error: x'', ''ok'', ''an error'']] '' error '' None ''asc'' True
     = Inr [''Error: x'', ''an error'']"
proof -
  have i: "default_querier 0 = init 0 OPERATION_DICT QUOTE_STRING"
    by (simp add: default_querier_def)
  have l: "\<forall>entry \<in> set (dict_values OPERATION_DICT). escaped_literal entry"
    by code_simp
  have n: "\<forall>lit \<in> set (dict_values (operationo_dict (default_querier 0))). \<not> sublist lit '' error ''"
    by (simp add: default_querier_dict dict_values_def sublist_Cons_right)
  have p: "parse_quoted_token (default_querier 0) '' error '' = ''error''"
    by (simp add: tok_eval_defs)
  have a: "parse_quoted_token (default_querier 0) '' error '' \<noteq> op_LEFT_PARENTHESIS (operationo_dict (default_querier 0))"
    "parse_quoted_token (default_querier 0) '' error '' \<noteq> op_NOT (operationo_dict (default_querier 0))"
    "parse_quoted_token (default_querier 0) '' error '' \<notin> INVALID_EVAL_OPERATION_SET"
    by (simp_all add: p default_querier_dict INVALID_EVAL_OPERATION_SET_eq)
  have r: "line_has True ''error'' ''Error: x''" "\<not> line_has True ''error'' ''ok''"
      "line_has True ''error'' ''an error''"
    by code_simp+
  from operand_query_selects_lines[OF i l n a, of "[[''Error: x'', ''ok'', ''an error'']]" "''asc''" True] show ?thesis
    by (simp add: p default_querier_fields r)
qed

text \<open>
  C5. For every corpus, the query with the empty query string and no limit returns the
  full corpus in its order, for every ordering and case setting: it returns the
  reference \<open>self.logs\<close> itself and leaves the store as it is, whatever the dictionary
  of the querier is, so no line is evaluated.
\<close>

theorem empty_query_returns_corpus:
  "query self h [] None ord ci = (Inr (logs self), h) \<and>
   query_result self h [] None ord ci = Inr (h ! logs self)"
  by (simp add: query_def query_result_def query_tokens_def truthy_def)

theorem empty_query_returns_corpus_witness:
  "query_result (default_querier 0) [[''x'', ''y'']] [] None ''desc'' True = Inr [''x'', ''y'']"
  using empty_query_returns_corpus[of "default_querier 0" "[[''x'', ''y'']]" "''desc''" True]
  by (simp add: default_querier_fields)

text \<open>
  C6. For all operand strings \<open>A\<close>, \<open>B\<close>, \<open>C\<close> of the default querier, every line
  and every case setting, the query \<open>A && B || C\<close> evaluates to: (\<open>A\<close> is in the line
  and \<open>B\<close> is in the line) or \<open>C\<close> is in the line. The example after it is a line
  on which this differs from \<open>A\<close> and (\<open>B\<close> or \<open>C\<close>).
\<close>

theorem and_binds_tighter_than_or:
  assumes "is_operand (default_querier a) A" "is_operand (default_querier a) B"
    "is_operand (default_querier a) C"
  shows "evaluate_query (default_querier a) (A @ '' && '' @ B @ '' || '' @ C) log ci
     = Inr ((line_has ci A log \<and> line_has ci B log) \<or> line_has ci C log)"
proof -
  have "X \<notin> {''&&'', ''||'', ''!!'', ''(('', ''))''}" if "is_operand (default_querier a) X" for X
    using operand_not_literal[OF that] by (auto simp: default_querier_dict dict_values_def)
  with assms show ?thesis
    unfolding evaluate_query_def tokenize_and_or[OF assms]
    by (simp add: eval_and_or_tokens)
qed

theorem and_binds_tighter_than_or_witness:
  "evaluate_query (default_querier 0) ''a && b || c'' ''xc'' False = Inr True \<and>
   \<not> (sublist ''a'' ''xc'' \<and> (sublist ''b'' ''xc'' \<or> sublist ''c'' ''xc''))"
  using and_binds_tighter_than_or[OF is_operand_abc, of 0 "''xc''" False]
  by (simp add: line_has_def sublist_Cons_right)

text \<open>
  C7. For every string \<open>X\<close>, every line and every case setting, the default querier
  evaluates the query of two NOT literals followed by \<open>X\<close> as it evaluates the query
  \<open>X\<close>: to the same boolean, or to the same error.
\<close>

theorem double_negation:
  "evaluate_query (default_querier a) (''!!!!'' @ X) log ci = evaluate_query (default_querier a) X log ci"
  unfolding evaluate_query_def tokenize_double_not
  by (cases "tokenize (default_querier a) X")
     (simp_all add: evaluate_tokens_double_not default_querier_dict)

theorem double_negation_witness:
  "evaluate_query (default_querier 0) ''!!!!a'' ''xa'' False = Inr True \<and>
   evaluate_query (default_querier 0) ''a'' ''xa'' False = Inr True"
proof -
  have "evaluate_query (default_querier 0) ''a'' ''xa'' False = Inr True"
    by code_simp
  with double_negation[of 0 "''a''" "''xa''" False] show ?thesis by simp
qed

text \<open>
  C8. For every querier whose \<open>self.logs\<close> refers to a list of the store, every query
  string, limit, ordering and case setting: in the store that \<open>query\<close> leaves, the list
  at \<open>self.logs\<close> is the list that was there before the call, and so is every other
  list of the store before the call. The reversal of the descending path works on the
  list that the slice allocated.
\<close>

theorem query_keeps_corpus:
  assumes "logs self < length h"
  shows "snd (query self h q limit ord ci) ! logs self = h ! logs self \<and>
         take (length h) (snd (query self h q limit ord ci)) = h"
  using assms by (simp add: query_store_nth query_store_prefix)

theorem query_keeps_corpus_witness:
  "snd (query (default_querier 0) [[''x'', ''y'']] [] (Some 2) ''desc'' False) ! 0 = [''x'', ''y''] \<and>
   query_result (default_querier 0) [[''x'', ''y'']] [] (Some 2) ''desc'' False = Inr [''y'', ''x'']"
proof -
  have v: "logs (default_querier 0) < length [[''x'', ''y'']]"
    by (simp add: default_querier_fields)
  from query_keeps_corpus[OF v, of "[]" "Some 2" "''desc''" False] show ?thesis
    by (simp add: default_querier_fields query_result_eq query_tokens_def truthy_def slice_to_def)
qed

text \<open>
  C9. For every corpus and every non-empty query string whose tokens are the empty list
  (white space only, or quote markers only), the query does what it does for the empty
  query string, for every limit, ordering and case setting; with no limit it returns the
  full corpus in its order.
\<close>

theorem empty_tokens_as_empty_query:
  assumes "q \<noteq> []" and "tokenize self q = Inr []"
  shows "query self h q limit ord ci = query self h [] limit ord ci \<and>
         query_result self h q None ord ci = Inr (h ! logs self)"
  using assms by (simp add: query_def query_result_eq query_tokens_def truthy_def)

theorem empty_tokens_as_empty_query_witness:
  "query (default_querier 0) [[''x'', ''y'']] ''   '' (Some 1) ''asc'' False
     = query (default_querier 0) [[''x'', ''y'']] [] (Some 1) ''asc'' False \<and>
   query_result (default_querier 0) [[''x'', ''y'']] ''   '' None ''asc'' False = Inr [''x'', ''y''] \<and>
   query_result (default_querier 0) [[''x'', ''y'']] [CHR 0x22, CHR 0x22] None ''asc'' False
     = Inr [''x'', ''y'']"
proof -
  have ne: "''   '' \<noteq> []" "[CHR 0x22, CHR 0x22] \<noteq> []" by simp_all
  from empty_tokens_as_empty_query[OF ne(1) tokenize_spaces, of 0 "[[''x'', ''y'']]" "Some 1" "''asc''" False]
    empty_tokens_as_empty_query[OF ne(2) tokenize_quotes, of 0 "[[''x'', ''y'']]" None "''asc''" False]
  show ?thesis by (simp add: default_querier_fields)
qed

text \<open>
  C10, as the claim states it, fails. The AND literal of the querier of
  \<open>SWAPPED_DICT\<close> differs from the default AND literal, and where a term is expected
  it raises, since it is the default OR literal. The AND literal of the querier of
  \<open>SAME_DICT\<close> is its NOT literal too, and where a term is expected it negates what
  follows: with nothing behind it the result is true on a line that does not contain it.
\<close>

theorem invalid_set_counterexample:
  "op_AND (operationo_dict (init 0 SWAPPED_DICT QUOTE_STRING)) = ''||'' \<and>
   op_AND (operationo_dict (default_querier 0)) = ''&&'' \<and>
   eval_next (operationo_dict (init 0 SWAPPED_DICT QUOTE_STRING)) [''||''] ''a || b'' False 0
     = Inl (InvalidOperationToken ''||'') \<and>
   op_AND (operationo_dict (init 0 SAME_DICT QUOTE_STRING)) = ''and'' \<and>
   eval_next (operationo_dict (init 0 SAME_DICT QUOTE_STRING)) [''and''] ''x'' False 0
     = Inr (True, 1) \<and>
   line_has False ''and'' ''x'' = False"
  by code_simp

text \<open>
  C10, amended. The set of the tokens that raise is the set of the default literals of
  AND, OR and RIGHT\_PARENTHESIS, whatever dictionary the querier has. For every
  dictionary, an AND, OR or RIGHT\_PARENTHESIS literal of it that is none of these
  three and is not the LEFT\_PARENTHESIS or NOT literal of the dictionary is, where a
  term is expected, an operand: \<open>eval_next\<close> returns whether the line contains it, and
  the next position.
\<close>

theorem custom_literal_is_operand:
  assumes "t \<in> {op_AND d, op_OR d, op_RIGHT_PARENTHESIS d}"
    and "t \<notin> {''&&'', ''||'', ''))''}"
    and "t \<noteq> op_LEFT_PARENTHESIS d" and "t \<noteq> op_NOT d"
    and "pos < length tokens" and "tokens ! pos = t"
  shows "INVALID_EVAL_OPERATION_SET = {''&&'', ''||'', ''))''} \<and>
         eval_next d tokens log ci pos = Inr (line_has ci t log, pos + 1)"
  using assms
  by (simp add: eval_next.simps[of d tokens log ci pos] Let_def INVALID_EVAL_OPERATION_SET_eq
        line_has_def)

theorem custom_literal_is_operand_witness:
  "eval_next (operationo_dict (init 0 WORD_DICT QUOTE_STRING)) [''AND'', ''a''] ''x AND y'' True 0
     = Inr (True, 1)"
proof -
  let ?d = "operationo_dict (init 0 WORD_DICT QUOTE_STRING)"
  have a: "''AND'' \<in> {op_AND ?d, op_OR ?d, op_RIGHT_PARENTHESIS ?d}"
    "''AND'' \<notin> {''&&'', ''||'', ''))''}"
    "''AND'' \<noteq> op_LEFT_PARENTHESIS ?d" "''AND'' \<noteq> op_NOT ?d"
    "0 < length [''AND'', ''a'']" "[''AND'', ''a''] ! 0 = ''AND''"
    by (simp_all add: word_querier_dict)
  from custom_literal_is_operand[OF a, of "''x AND y''" True] show ?thesis
    by (simp add: line_has_def lower_def lower_char_def sublist_Cons_right)
qed

end
